theory Spec2Isabelle
  imports Complex_Main "HOL-Library.Sublist"
begin

section \<open>The duplicate checker of \<^verbatim>\<open>check_duplicate.py\<close>\<close>

text \<open>
  A shallow embedding of the class \<^verbatim>\<open>DuplicateChecker\<close>. A Python \<^verbatim>\<open>str\<close> is a
  \<^typ>\<open>string\<close>: a list of characters, each character a code point in the range
  U+0000 to U+00FF. A Python \<^verbatim>\<open>set[str]\<close> is a \<^typ>\<open>string set\<close>.
\<close>

subsection \<open>String primitives\<close>

text \<open>\<^verbatim>\<open>s.split(sep)\<close> for a separator of one character: never the empty list.\<close>

fun split_on :: "char \<Rightarrow> string \<Rightarrow> string list" where
  "split_on sep [] = [[]]"
| "split_on sep (c # cs) =
     (if c = sep then [] # split_on sep cs
      else (case split_on sep cs of
              [] \<Rightarrow> [[c]]
            | p # ps \<Rightarrow> (c # p) # ps))"

text \<open>\<^verbatim>\<open>sep.join(parts)\<close>.\<close>

fun join_str :: "string \<Rightarrow> string list \<Rightarrow> string" where
  "join_str sep [] = []"
| "join_str sep [p] = p"
| "join_str sep (p # q # ps) = p @ sep @ join_str sep (q # ps)"

text \<open>The slice \<^verbatim>\<open>rule[2:-1]\<close>: empty when the string has fewer than four characters.\<close>

definition domain_of :: "string \<Rightarrow> string" where
  "domain_of rule = drop 2 (take (length rule - 1) rule)"

subsection \<open>The subdomain pruner\<close>

text \<open>
  \<^verbatim>\<open>prune_subdomain\<close>: the comprehension \<^verbatim>\<open>{rule[2:-1] for rule in rules}\<close> is an image,
  the loop that fills \<^verbatim>\<open>kept\<close> is a filter of \<^verbatim>\<open>rules\<close>, and
  \<^verbatim>\<open>any(... for i in range(1, len(parts)))\<close> is \<^const>\<open>list_ex\<close> over \<open>[1..<length parts]\<close>.
\<close>

definition prune_subdomain :: "string set \<Rightarrow> string set" where
  "prune_subdomain rules =
     (if rules = {} then rules
      else
        (let domains = domain_of ` rules
         in {rule \<in> rules.
               \<not> (let domain = domain_of rule;
                       parts = split_on CHR ''.'' domain
                   in list_ex (\<lambda>i. join_str ''.'' (drop i parts) \<in> domains)
                        [1..<length parts])}))"

subsection \<open>Ancestor domains\<close>

text \<open>
  The proper suffixes of a list, longest first, the empty one last.
\<close>

fun proper_suffixes :: "'a list \<Rightarrow> 'a list list" where
  "proper_suffixes [] = []"
| "proper_suffixes (x # xs) = xs # proper_suffixes xs"

text \<open>
  The ancestor domains of a domain, in the words of the specification: one for every
  non-empty proper suffix of its sequence of dot-separated labels.
\<close>

definition ancestor_domains :: "string \<Rightarrow> string list" where
  "ancestor_domains d =
     map (join_str ''.'') (filter (\<lambda>ls. ls \<noteq> []) (proper_suffixes (split_on CHR ''.'' d)))"

text \<open>\<open>d\<close> is a strict subdomain of \<open>e\<close> when \<open>e\<close> is one of the ancestor domains of \<open>d\<close>.\<close>

definition strict_subdomain :: "string \<Rightarrow> string \<Rightarrow> bool" where
  "strict_subdomain d e \<longleftrightarrow> e \<in> set (ancestor_domains d)"

subsection \<open>The aggregation stage of \<^verbatim>\<open>run\<close>\<close>

text \<open>
  A Python \<^verbatim>\<open>dict\<close> whose order of insertion matters is an association list with distinct
  keys; \<^verbatim>\<open>d[k] = v\<close> replaces the value of a key that is present and appends a new key.
\<close>

fun dict_set :: "'k \<Rightarrow> 'v \<Rightarrow> ('k \<times> 'v) list \<Rightarrow> ('k \<times> 'v) list" where
  "dict_set k v [] = [(k, v)]"
| "dict_set k v ((k', v') # kvs) =
     (if k' = k then (k, v) # kvs else (k', v') # dict_set k v kvs)"

text \<open>\<^verbatim>\<open>self.source_pruned\<close> and \<^verbatim>\<open>self.rule_sources\<close>.\<close>

type_synonym source_pruned = "(string \<times> string set) list"
type_synonym rule_sources = "string \<rightharpoonup> string list"

datatype py_error = KeyError

text \<open>\<^verbatim>\<open>self.rule_sources.setdefault(rule, []).append(src)\<close>.\<close>

definition append_source :: "string \<Rightarrow> string \<Rightarrow> rule_sources \<Rightarrow> rule_sources" where
  "append_source src rule rs =
     rs(rule \<mapsto> (case rs rule of None \<Rightarrow> [] | Some srcs \<Rightarrow> srcs) @ [src])"

text \<open>
  The inner loop \<^verbatim>\<open>for rule in rules\<close> runs over a set, in an order that Python does not
  fix. Every member is visited once and the updates of different keys do not interfere,
  so the loop is the update of all members at once (lemma \<open>fold_append_source\<close> below
  relates it to the loop over any enumeration of the set).
\<close>

definition index_source :: "string \<Rightarrow> string set \<Rightarrow> rule_sources \<Rightarrow> rule_sources" where
  "index_source src rules rs =
     (\<lambda>rule. if rule \<in> rules then append_source src rule rs rule else rs rule)"

text \<open>The outer loop \<^verbatim>\<open>for src, rules in self.source_pruned.items()\<close>.\<close>

fun build_index :: "source_pruned \<Rightarrow> rule_sources \<Rightarrow> rule_sources" where
  "build_index [] rs = rs"
| "build_index ((src, rules) # rest) rs = build_index rest (index_source src rules rs)"

text \<open>
  One entry of the report. The counts are Python integers; \<^verbatim>\<open>duplicate / max(len(rules), 1)\<close>
  is the quotient of two integers, kept here as the exact rational (Python returns the
  float nearest to it).
\<close>

record source_report =
  r_total :: int
  r_duplicate :: int
  r_distinct :: int
  r_duplicate_rate :: rat

text \<open>
  The body of the second loop. \<^verbatim>\<open>self.rule_sources[r]\<close> raises \<^verbatim>\<open>KeyError\<close> for a rule
  that is not a key of the index.
\<close>

definition report_entry :: "rule_sources \<Rightarrow> string set \<Rightarrow> py_error + source_report" where
  "report_entry rs rules =
     (if \<exists>r \<in> rules. rs r = None then Inl KeyError
      else
        (let duplicate = int (card {r \<in> rules. length (the (rs r)) > 1})
         in Inr \<lparr>r_total = int (card rules),
                 r_duplicate = duplicate,
                 r_distinct = int (card rules) - duplicate,
                 r_duplicate_rate = of_int duplicate / of_int (max (int (card rules)) 1)\<rparr>))"

fun report_loop ::
  "rule_sources \<Rightarrow> source_pruned \<Rightarrow> (string \<times> source_report) list
     \<Rightarrow> py_error + (string \<times> source_report) list" where
  "report_loop rs [] report = Inr report"
| "report_loop rs ((src, rules) # rest) report =
     (case report_entry rs rules of
        Inl e \<Rightarrow> Inl e
      | Inr entry \<Rightarrow> report_loop rs rest (dict_set src entry report))"

text \<open>
  The second stage of \<^verbatim>\<open>run\<close>, from the filled \<^verbatim>\<open>source_pruned\<close> to the report; the
  index starts empty, as \<^verbatim>\<open>__init__\<close> leaves it.
\<close>

definition aggregate :: "source_pruned \<Rightarrow> py_error + (string \<times> source_report) list" where
  "aggregate sp = report_loop (build_index sp Map.empty) sp []"

text \<open>
  The last two steps of \<^verbatim>\<open>process_source\<close>, from the extracted rules of a source:
  \<^verbatim>\<open>pruned = self.prune_subdomain(raw)\<close> and \<^verbatim>\<open>self.source_pruned[url] = pruned\<close>.
\<close>

definition store_pruned :: "string \<Rightarrow> string set \<Rightarrow> source_pruned \<Rightarrow> source_pruned" where
  "store_pruned url raw sp = dict_set url (prune_subdomain raw) sp"


subsection \<open>More string primitives\<close>

text \<open>
  The characters below U+0100 for which \<^verbatim>\<open>str.isspace\<close> holds; \<^verbatim>\<open>str.strip()\<close> removes them
  from both ends.
\<close>

definition whitespace :: "char list" where
  "whitespace = [CHR 0x09, CHR 0x0A, CHR 0x0B, CHR 0x0C, CHR 0x0D, CHR 0x1C, CHR 0x1D, CHR 0x1E,
                 CHR 0x1F, CHR 0x20, CHR 0x85, CHR 0xA0]"

definition isspace :: "char \<Rightarrow> bool" where
  "isspace c \<longleftrightarrow> c \<in> set whitespace"

definition strip :: "string \<Rightarrow> string" where
  "strip s = rev (dropWhile isspace (rev (dropWhile isspace s)))"

text \<open>
  \<^verbatim>\<open>str.lower()\<close>: the letters A to Z and the capital letters of U+00C0 to U+00DE (all
  but the multiplication sign U+00D7) go to the letters 32 places further; every other
  character below U+0100 stays.
\<close>

definition uppercase :: "char list" where
  "uppercase = ''ABCDEFGHIJKLMNOPQRSTUVWXYZ'' @
       [CHR 0xC0, CHR 0xC1, CHR 0xC2, CHR 0xC3, CHR 0xC4, CHR 0xC5, CHR 0xC6, CHR 0xC7, CHR
        0xC8, CHR 0xC9, CHR 0xCA, CHR 0xCB, CHR 0xCC, CHR 0xCD, CHR 0xCE, CHR 0xCF, CHR 0xD0,
        CHR 0xD1, CHR 0xD2, CHR 0xD3, CHR 0xD4, CHR 0xD5, CHR 0xD6, CHR 0xD8, CHR 0xD9, CHR
        0xDA, CHR 0xDB, CHR 0xDC, CHR 0xDD, CHR 0xDE]"

definition lowercase :: "char list" where
  "lowercase = ''abcdefghijklmnopqrstuvwxyz'' @
       [CHR 0xE0, CHR 0xE1, CHR 0xE2, CHR 0xE3, CHR 0xE4, CHR 0xE5, CHR 0xE6, CHR 0xE7, CHR
        0xE8, CHR 0xE9, CHR 0xEA, CHR 0xEB, CHR 0xEC, CHR 0xED, CHR 0xEE, CHR 0xEF, CHR 0xF0,
        CHR 0xF1, CHR 0xF2, CHR 0xF3, CHR 0xF4, CHR 0xF5, CHR 0xF6, CHR 0xF8, CHR 0xF9, CHR
        0xFA, CHR 0xFB, CHR 0xFC, CHR 0xFD, CHR 0xFE]"

definition lower_char :: "char \<Rightarrow> char" where
  "lower_char c = (case map_of (zip uppercase lowercase) c of None \<Rightarrow> c | Some l \<Rightarrow> l)"

definition lower :: "string \<Rightarrow> string" where
  "lower s = map lower_char s"

text \<open>\<^verbatim>\<open>s.startswith(p)\<close> and \<^verbatim>\<open>s.endswith(p)\<close>.\<close>

definition startswith :: "string \<Rightarrow> string \<Rightarrow> bool" where
  "startswith p s \<longleftrightarrow> take (length p) s = p"

definition endswith :: "string \<Rightarrow> string \<Rightarrow> bool" where
  "endswith p s \<longleftrightarrow> length p \<le> length s \<and> drop (length s - length p) s = p"

subsection \<open>The regular expression of the normalizer\<close>

text \<open>
  The pattern of \<^verbatim>\<open>re.fullmatch\<close> uses character classes, concatenation, \<^verbatim>\<open>?\<close>, \<^verbatim>\<open>*\<close> and
  \<^verbatim>\<open>{2,}\<close>. \<^verbatim>\<open>re.fullmatch\<close> succeeds when the whole string is a word of the pattern, so it is
  decided here by derivatives: \<open>deriv c r\<close> is what \<open>r\<close> still has to match after the
  character \<open>c\<close>, and the string matches when what remains at its end accepts the empty
  word. The anchors \<^verbatim>\<open>^\<close> and \<^verbatim>\<open>$\<close> of the source add nothing under \<^verbatim>\<open>fullmatch\<close>.
\<close>

datatype rexp =
    Never
  | Empty
  | Class "char list"
  | Seq rexp rexp
  | Alt rexp rexp
  | Star rexp

text \<open>\<^verbatim>\<open>r?\<close> and \<^verbatim>\<open>r{n,}\<close>.\<close>

definition Opt :: "rexp \<Rightarrow> rexp" where
  "Opt r = Alt r Empty"

fun AtLeast :: "nat \<Rightarrow> rexp \<Rightarrow> rexp" where
  "AtLeast 0 r = Star r"
| "AtLeast (Suc n) r = Seq r (AtLeast n r)"

fun nullable :: "rexp \<Rightarrow> bool" where
  "nullable Never = False"
| "nullable Empty = True"
| "nullable (Class cs) = False"
| "nullable (Seq r s) = (nullable r \<and> nullable s)"
| "nullable (Alt r s) = (nullable r \<or> nullable s)"
| "nullable (Star r) = True"

fun deriv :: "char \<Rightarrow> rexp \<Rightarrow> rexp" where
  "deriv c Never = Never"
| "deriv c Empty = Never"
| "deriv c (Class cs) = (if c \<in> set cs then Empty else Never)"
| "deriv c (Seq r s) =
     (if nullable r then Alt (Seq (deriv c r) s) (deriv c s) else Seq (deriv c r) s)"
| "deriv c (Alt r s) = Alt (deriv c r) (deriv c s)"
| "deriv c (Star r) = Seq (deriv c r) (Star r)"

definition fullmatch :: "rexp \<Rightarrow> string \<Rightarrow> bool" where
  "fullmatch r s = nullable (fold deriv s r)"

text \<open>The classes \<^verbatim>\<open>[a-z]\<close>, \<^verbatim>\<open>[a-z0-9]\<close> and \<^verbatim>\<open>[a-z0-9-]\<close>.\<close>

definition letters :: "char list" where
  "letters = ''abcdefghijklmnopqrstuvwxyz''"

definition alnum :: "char list" where
  "alnum = ''abcdefghijklmnopqrstuvwxyz0123456789''"

definition alnum_hyphen :: "char list" where
  "alnum_hyphen = ''abcdefghijklmnopqrstuvwxyz0123456789-''"

text \<open>
  \<^verbatim>\<open>[a-z0-9]([a-z0-9-]*[a-z0-9])?\<close>, and the whole pattern
  \<^verbatim>\<open>^[a-z0-9]([a-z0-9-]*[a-z0-9])?(\.[a-z0-9]([a-z0-9-]*[a-z0-9])?)*\.[a-z]{2,}$\<close>.
\<close>

definition label_pattern :: rexp where
  "label_pattern = Seq (Class alnum) (Opt (Seq (Star (Class alnum_hyphen)) (Class alnum)))"

definition domain_pattern :: rexp where
  "domain_pattern =
     Seq label_pattern
       (Seq (Star (Seq (Class ''.'') label_pattern))
         (Seq (Class ''.'') (AtLeast 2 (Class letters))))"

subsection \<open>The normalizer and the extraction of rules\<close>

definition normalize :: "string \<Rightarrow> string" where
  "normalize line0 =
     (let line = lower (strip line0)
      in if \<not> (startswith ''||'' line \<and> endswith ''^'' line \<and> CHR ''$'' \<notin> set line) then []
         else
           (let domain = domain_of line
            in if \<not> fullmatch domain_pattern domain then [] else line))"

text \<open>
  \<^verbatim>\<open>str.splitlines()\<close>: the line boundaries below U+0100 are LF, VT, FF, CR, FS, GS, RS and
  NEL, and CR LF counts as one; no empty last line after a final boundary.
\<close>

definition line_boundaries :: "char list" where
  "line_boundaries = [CHR 0x0A, CHR 0x0B, CHR 0x0C, CHR 0x0D, CHR 0x1C, CHR 0x1D, CHR 0x1E, CHR 0x85]"

fun splitlines_from :: "string \<Rightarrow> string \<Rightarrow> string list" where
  "splitlines_from cur [] = (if cur = [] then [] else [rev cur])"
| "splitlines_from cur [c] =
     (if c \<in> set line_boundaries then [rev cur] else [rev (c # cur)])"
| "splitlines_from cur (c # d # ds) =
     (if c = CHR 0x0D \<and> d = CHR 0x0A then rev cur # splitlines_from [] ds
      else if c \<in> set line_boundaries then rev cur # splitlines_from [] (d # ds)
      else splitlines_from (c # cur) (d # ds))"

definition splitlines :: "string \<Rightarrow> string list" where
  "splitlines s = splitlines_from [] s"

text \<open>
  \<^verbatim>\<open>{self.normalize(line) for line in content.splitlines() if self.normalize(line)}\<close>: an
  empty string is false.
\<close>

definition extract_rules :: "string \<Rightarrow> string set" where
  "extract_rules content =
     set (map normalize (filter (\<lambda>line. normalize line \<noteq> []) (splitlines content)))"

text \<open>
  \<^verbatim>\<open>process_source\<close>, with the download as a parameter: the text that \<^verbatim>\<open>download\<close> returns for
  a URL (the empty text when the request fails).
\<close>

definition process_source :: "(string \<Rightarrow> string) \<Rightarrow> string \<Rightarrow> source_pruned \<Rightarrow> source_pruned" where
  "process_source download url sp =
     (let content = download url;
          raw = extract_rules content
      in store_pruned url raw sp)"

subsection \<open>The loader of the list of sources\<close>

text \<open>
  Reading a file opened in text mode: \<^verbatim>\<open>\r\n\<close> and \<^verbatim>\<open>\r\<close> are read as \<^verbatim>\<open>\n\<close>, and the
  iteration yields the lines with their final \<^verbatim>\<open>\n\<close>.
\<close>

fun universal_newlines :: "string \<Rightarrow> string" where
  "universal_newlines [] = []"
| "universal_newlines [c] = (if c = CHR 0x0D then [CHR 0x0A] else [c])"
| "universal_newlines (c # d # ds) =
     (if c = CHR 0x0D \<and> d = CHR 0x0A then CHR 0x0A # universal_newlines ds
      else if c = CHR 0x0D then CHR 0x0A # universal_newlines (d # ds)
      else c # universal_newlines (d # ds))"

fun lines_from :: "string \<Rightarrow> string \<Rightarrow> string list" where
  "lines_from cur [] = (if cur = [] then [] else [rev cur])"
| "lines_from cur (c # cs) =
     (if c = CHR 0x0A then rev (c # cur) # lines_from [] cs else lines_from (c # cur) cs)"

definition file_lines :: "string \<Rightarrow> string list" where
  "file_lines content = lines_from [] (universal_newlines content)"

text \<open>
  \<^verbatim>\<open>load_sources\<close>. The file system is outside the model: the argument gives, for each
  encoding that the loop tries, in its order, the decoded content of the file, or nothing
  when opening or decoding it raised. \<^verbatim>\<open>line.split('#')[0]\<close> is the head of a list that
  is never empty (lemma \<open>split_on_not_Nil\<close>).
\<close>

definition source_of_line :: "string \<Rightarrow> string" where
  "source_of_line line = strip (hd (split_on CHR 0x23 line))"

definition keep_line :: "string \<Rightarrow> bool" where
  "keep_line line \<longleftrightarrow> strip line \<noteq> [] \<and> \<not> startswith [CHR 0x23] line"

fun load_sources :: "string option list \<Rightarrow> string list" where
  "load_sources [] = []"
| "load_sources (None # encodings) = load_sources encodings"
| "load_sources (Some content # encodings) =
     map source_of_line (filter keep_line (file_lines content))"

subsection \<open>The words of a regular expression\<close>

definition conc :: "string set \<Rightarrow> string set \<Rightarrow> string set" where
  "conc A B = {u @ v | u v. u \<in> A \<and> v \<in> B}"

inductive_set kleene :: "string set \<Rightarrow> string set" for A :: "string set" where
  kleene_Nil: "[] \<in> kleene A"
| kleene_step: "u \<in> A \<Longrightarrow> v \<in> kleene A \<Longrightarrow> u @ v \<in> kleene A"

fun lang :: "rexp \<Rightarrow> string set" where
  "lang Never = {}"
| "lang Empty = {[]}"
| "lang (Class cs) = {[c] | c. c \<in> set cs}"
| "lang (Seq r s) = conc (lang r) (lang s)"
| "lang (Alt r s) = lang r \<union> lang s"
| "lang (Star r) = kleene (lang r)"

subsection \<open>The grammar of domains and canonical rules, as the specification words them\<close>

text \<open>
  A label is a non-empty string of lower-case letters, digits and hyphens that neither
  starts nor ends with a hyphen. A domain is made of labels separated by dots, with at
  least one dot, and its last label has at least two characters, all of them letters.
\<close>

definition is_label :: "string \<Rightarrow> bool" where
  "is_label l \<longleftrightarrow>
     l \<noteq> [] \<and> (\<forall>c \<in> set l. c \<in> set alnum_hyphen) \<and> hd l \<noteq> CHR ''-'' \<and> last l \<noteq> CHR ''-''"

definition label_grammar :: "string \<Rightarrow> bool" where
  "label_grammar d \<longleftrightarrow>
     (let labels = split_on CHR ''.'' d
      in 2 \<le> length labels \<and> (\<forall>l \<in> set labels. is_label l)
         \<and> 2 \<le> length (last labels) \<and> (\<forall>c \<in> set (last labels). c \<in> set letters))"

text \<open>A canonical rule has the exact form \<open>||domain^\<close> for a domain of the grammar.\<close>

definition canonical_rule :: "string \<Rightarrow> bool" where
  "canonical_rule r \<longleftrightarrow>
     startswith ''||'' r \<and> endswith ''^'' r \<and> label_grammar (domain_of r)"

text \<open>The characters that a canonical rule is made of.\<close>

definition rule_chars :: "char list" where
  "rule_chars = alnum_hyphen @ ''.|^''"

section \<open>Properties\<close>

subsection \<open>Splitting and joining\<close>

lemma split_on_not_Nil: "split_on sep s \<noteq> []"
  by (induction s) (auto split: list.splits)

lemma join_str_Cons:
  "ps \<noteq> [] \<Longrightarrow> join_str sep (p # ps) = p @ sep @ join_str sep ps"
  by (cases ps) simp_all

lemma join_split_on: "join_str [sep] (split_on sep s) = s"
proof (induction s)
  case Nil
  show ?case by simp
next
  case (Cons c cs)
  obtain p ps where ps: "split_on sep cs = p # ps"
    using split_on_not_Nil [of sep cs] by (cases "split_on sep cs") auto
  show ?case
  proof (cases "c = sep")
    case True
    then show ?thesis
      using Cons.IH split_on_not_Nil [of sep cs] by (simp add: join_str_Cons)
  next
    case False
    then show ?thesis
      using Cons.IH ps by (cases ps) simp_all
  qed
qed

lemma split_on_append_sep:
  "split_on sep (x @ sep # e) = split_on sep x @ split_on sep e"
proof (induction x)
  case Nil
  show ?case by simp
next
  case (Cons c cs)
  obtain p ps where ps: "split_on sep cs = p # ps"
    using split_on_not_Nil [of sep cs] by (cases "split_on sep cs") auto
  show ?case
    using Cons.IH ps by simp
qed

lemma join_str_append:
  "xs \<noteq> [] \<Longrightarrow> ys \<noteq> [] \<Longrightarrow>
     join_str sep (xs @ ys) = join_str sep xs @ sep @ join_str sep ys"
proof (induction xs)
  case Nil
  then show ?case by simp
next
  case (Cons x xs)
  show ?case
  proof (cases "xs = []")
    case True
    with Cons.prems show ?thesis by (simp add: join_str_Cons)
  next
    case False
    with Cons show ?thesis by (simp add: join_str_Cons)
  qed
qed

subsection \<open>Ancestors\<close>

lemma proper_suffixes_iff:
  "ls \<in> set (proper_suffixes xs) \<longleftrightarrow> (\<exists>ys. ys \<noteq> [] \<and> xs = ys @ ls)"
proof (induction xs)
  case Nil
  show ?case by simp
next
  case (Cons x xs)
  show ?case
  proof
    assume "ls \<in> set (proper_suffixes (x # xs))"
    then consider "ls = xs" | "ls \<in> set (proper_suffixes xs)" by auto
    then show "\<exists>ys. ys \<noteq> [] \<and> x # xs = ys @ ls"
    proof cases
      case 1
      then have "[x] \<noteq> [] \<and> x # xs = [x] @ ls" by simp
      then show ?thesis by blast
    next
      case 2
      with Cons.IH obtain ys where "ys \<noteq> []" "xs = ys @ ls" by blast
      then have "x # ys \<noteq> [] \<and> x # xs = (x # ys) @ ls" by simp
      then show ?thesis by blast
    qed
  next
    assume "\<exists>ys. ys \<noteq> [] \<and> x # xs = ys @ ls"
    then obtain y ys where eq: "x # xs = (y # ys) @ ls"
      by (metis list.exhaust)
    then have xs: "xs = ys @ ls" by simp
    show "ls \<in> set (proper_suffixes (x # xs))"
    proof (cases "ys = []")
      case True
      with xs show ?thesis by simp
    next
      case False
      with xs Cons.IH show ?thesis by auto
    qed
  qed
qed

lemma proper_suffixes_strict_suffix:
  "ls \<in> set (proper_suffixes xs) \<longleftrightarrow> strict_suffix ls xs"
  by (auto simp: proper_suffixes_iff strict_suffix_def suffix_def)

lemma list_ex_drop_iff:
  "list_ex (\<lambda>i. P (drop i xs)) [1..<length xs]
     \<longleftrightarrow> (\<exists>ys ls. ys \<noteq> [] \<and> ls \<noteq> [] \<and> xs = ys @ ls \<and> P ls)"
proof
  assume "list_ex (\<lambda>i. P (drop i xs)) [1..<length xs]"
  then obtain i where i: "1 \<le> i" "i < length xs" "P (drop i xs)"
    by (auto simp: list_ex_iff)
  then have "take i xs \<noteq> [] \<and> drop i xs \<noteq> [] \<and> xs = take i xs @ drop i xs \<and> P (drop i xs)"
    by auto
  then show "\<exists>ys ls. ys \<noteq> [] \<and> ls \<noteq> [] \<and> xs = ys @ ls \<and> P ls"
    by blast
next
  assume "\<exists>ys ls. ys \<noteq> [] \<and> ls \<noteq> [] \<and> xs = ys @ ls \<and> P ls"
  then obtain ys ls where h: "ys \<noteq> []" "ls \<noteq> []" "xs = ys @ ls" "P ls"
    by blast
  then have "length ys \<in> set [1..<length xs]" "P (drop (length ys) xs)"
    by (auto simp: Suc_le_eq)
  then show "list_ex (\<lambda>i. P (drop i xs)) [1..<length xs]"
    unfolding list_ex_iff by blast
qed

lemma ancestor_domains_iff:
  "e \<in> set (ancestor_domains d) \<longleftrightarrow> (\<exists>x. d = x @ ''.'' @ e)"
proof
  assume "e \<in> set (ancestor_domains d)"
  then obtain ys ls where h: "ys \<noteq> []" "ls \<noteq> []" "split_on CHR ''.'' d = ys @ ls"
      "e = join_str ''.'' ls"
    by (auto simp: ancestor_domains_def proper_suffixes_iff)
  have "d = join_str ''.'' (ys @ ls)"
    using h(3) join_split_on [of "CHR ''.''" d] by simp
  with h have "d = join_str ''.'' ys @ ''.'' @ e"
    by (simp add: join_str_append)
  then show "\<exists>x. d = x @ ''.'' @ e" by blast
next
  assume "\<exists>x. d = x @ ''.'' @ e"
  then obtain x where d: "d = x @ ''.'' @ e" by blast
  let ?ys = "split_on CHR ''.'' x" and ?ls = "split_on CHR ''.'' e"
  have "split_on CHR ''.'' d = ?ys @ ?ls"
    using d by (simp add: split_on_append_sep)
  moreover have "?ys \<noteq> []" "?ls \<noteq> []"
    by (rule split_on_not_Nil)+
  moreover have "join_str ''.'' ?ls = e"
    by (rule join_split_on)
  ultimately have "?ls \<in> set (filter (\<lambda>ls. ls \<noteq> []) (proper_suffixes (split_on CHR ''.'' d)))"
    by (auto simp: proper_suffixes_iff)
  then have "join_str ''.'' ?ls \<in> set (ancestor_domains d)"
    unfolding ancestor_domains_def by (simp only: set_map image_eqI)
  then show "e \<in> set (ancestor_domains d)"
    by (simp add: join_split_on)
qed

lemma strict_subdomain_iff: "strict_subdomain d e \<longleftrightarrow> (\<exists>x. d = x @ ''.'' @ e)"
  by (simp add: strict_subdomain_def ancestor_domains_iff)

lemma strict_subdomain_irrefl: "\<not> strict_subdomain d d"
proof
  assume "strict_subdomain d d"
  then obtain x where "d = x @ ''.'' @ d"
    by (auto simp: strict_subdomain_iff)
  then have "length d = length (x @ ''.'' @ d)" by simp
  then show False by simp
qed

lemma any_parent_iff:
  "list_ex (\<lambda>i. join_str ''.'' (drop i (split_on CHR ''.'' d)) \<in> D)
       [1..<length (split_on CHR ''.'' d)]
     \<longleftrightarrow> (\<exists>e \<in> D. strict_subdomain d e)"
proof -
  let ?xs = "split_on CHR ''.'' d"
  have "list_ex (\<lambda>i. join_str ''.'' (drop i ?xs) \<in> D) [1..<length ?xs]
          \<longleftrightarrow> (\<exists>ys ls. ys \<noteq> [] \<and> ls \<noteq> [] \<and> ?xs = ys @ ls \<and> join_str ''.'' ls \<in> D)"
    by (rule list_ex_drop_iff [of "\<lambda>ls. join_str ''.'' ls \<in> D" ?xs])
  also have "\<dots> \<longleftrightarrow> (\<exists>e \<in> D. strict_subdomain d e)"
    unfolding strict_subdomain_def ancestor_domains_def
    by (auto simp: proper_suffixes_iff)
  finally show ?thesis .
qed

subsection \<open>The pruner\<close>

lemma prune_subdomain_iff:
  "r \<in> prune_subdomain R \<longleftrightarrow>
     r \<in> R \<and> \<not> (\<exists>s \<in> R. strict_subdomain (domain_of r) (domain_of s))"
  unfolding prune_subdomain_def Let_def any_parent_iff by auto

lemma prune_subdomain_subset: "prune_subdomain R \<subseteq> R"
  by (auto simp: prune_subdomain_iff)

text \<open>
  C2. Pruning is idempotent: for every set of rules, pruning the pruned set again
  returns the pruned set.
\<close>

theorem prune_subdomain_idempotent:
  "prune_subdomain (prune_subdomain R) = prune_subdomain R"
proof
  show "prune_subdomain (prune_subdomain R) \<subseteq> prune_subdomain R"
    by (rule prune_subdomain_subset)
  show "prune_subdomain R \<subseteq> prune_subdomain (prune_subdomain R)"
  proof
    fix r
    assume r: "r \<in> prune_subdomain R"
    then have "\<not> (\<exists>s \<in> R. strict_subdomain (domain_of r) (domain_of s))"
      by (simp add: prune_subdomain_iff)
    then have "\<not> (\<exists>s \<in> prune_subdomain R. strict_subdomain (domain_of r) (domain_of s))"
      using prune_subdomain_subset [of R] by blast
    with r show "r \<in> prune_subdomain (prune_subdomain R)"
      by (simp add: prune_subdomain_iff [of r "prune_subdomain R"])
  qed
qed

text \<open>
  C3. After pruning, no rule of the result has a domain that is a strict subdomain of the
  domain of a rule of the result: the pruned set holds no ancestor/descendant pair.
\<close>

theorem prune_subdomain_no_ancestor_pair:
  assumes r: "r \<in> prune_subdomain R" and s: "s \<in> prune_subdomain R"
  shows "\<not> strict_subdomain (domain_of r) (domain_of s)"
proof -
  from r have "\<not> (\<exists>t \<in> R. strict_subdomain (domain_of r) (domain_of t))"
    by (simp add: prune_subdomain_iff)
  moreover from s have "s \<in> R"
    by (simp add: prune_subdomain_iff)
  ultimately show ?thesis by blast
qed

theorem prune_subdomain_no_ancestor_pair_witness:
  "''||example.com^'' \<in> prune_subdomain {''||ads.example.com^'', ''||example.com^'', ''||other.org^''}
   \<and> ''||other.org^'' \<in> prune_subdomain {''||ads.example.com^'', ''||example.com^'', ''||other.org^''}
   \<and> \<not> strict_subdomain (domain_of ''||example.com^'') (domain_of ''||other.org^'')"
proof -
  let ?R = "{''||ads.example.com^'', ''||example.com^'', ''||other.org^''}"
  have a: "''||example.com^'' \<in> prune_subdomain ?R"
    by (simp add: prune_subdomain_def domain_of_def)
  have b: "''||other.org^'' \<in> prune_subdomain ?R"
    by (simp add: prune_subdomain_def domain_of_def)
  from a b prune_subdomain_no_ancestor_pair [OF a b] show ?thesis
    by (intro conjI)
qed

text \<open>
  C8. When no rule's domain is an ancestor of the domain of another rule of the set,
  pruning returns the set unchanged.
\<close>

theorem prune_subdomain_identity:
  assumes h: "\<forall>r \<in> R. \<forall>s \<in> R. r \<noteq> s \<longrightarrow> \<not> strict_subdomain (domain_of r) (domain_of s)"
  shows "prune_subdomain R = R"
proof
  show "prune_subdomain R \<subseteq> R" by (rule prune_subdomain_subset)
  show "R \<subseteq> prune_subdomain R"
  proof
    fix r assume r: "r \<in> R"
    have "\<not> strict_subdomain (domain_of r) (domain_of s)" if "s \<in> R" for s
    proof (cases "s = r")
      case True
      then show ?thesis by (simp add: strict_subdomain_irrefl)
    next
      case False
      from h r have "\<forall>s \<in> R. r \<noteq> s \<longrightarrow> \<not> strict_subdomain (domain_of r) (domain_of s)"
        by (rule bspec)
      from this that have "r \<noteq> s \<longrightarrow> \<not> strict_subdomain (domain_of r) (domain_of s)"
        by (rule bspec)
      with False show ?thesis by simp
    qed
    then have "\<not> (\<exists>s \<in> R. strict_subdomain (domain_of r) (domain_of s))"
      by blast
    with r show "r \<in> prune_subdomain R"
      by (simp add: prune_subdomain_iff)
  qed
qed

theorem prune_subdomain_identity_witness:
  "\<not> strict_subdomain (domain_of ''||example.com^'') (domain_of ''||other.org^'')
   \<and> \<not> strict_subdomain (domain_of ''||other.org^'') (domain_of ''||example.com^'')
   \<and> prune_subdomain {''||example.com^'', ''||other.org^''} = {''||example.com^'', ''||other.org^''}"
proof -
  have n: "\<not> strict_subdomain (domain_of ''||example.com^'') (domain_of ''||other.org^'')"
    "\<not> strict_subdomain (domain_of ''||other.org^'') (domain_of ''||example.com^'')"
    by (simp_all add: strict_subdomain_iff domain_of_def)
  then have h: "\<forall>r \<in> {''||example.com^'', ''||other.org^''}.
      \<forall>s \<in> {''||example.com^'', ''||other.org^''}.
       r \<noteq> s \<longrightarrow> \<not> strict_subdomain (domain_of r) (domain_of s)"
    by simp
  from n prune_subdomain_identity [OF h] show ?thesis
    by (intro conjI)
qed

subsection \<open>The aggregation stage\<close>

lemma append_source_commute:
  "a \<noteq> b \<Longrightarrow> append_source src a (append_source src b rs) = append_source src b (append_source src a rs)"
  by (auto simp: append_source_def fun_eq_iff)

lemma fold_append_source_at:
  "distinct xs \<Longrightarrow>
     fold (append_source src) xs rs r =
       (if r \<in> set xs then Some ((case rs r of None \<Rightarrow> [] | Some srcs \<Rightarrow> srcs) @ [src])
        else rs r)"
proof (induction xs arbitrary: rs)
  case Nil
  show ?case by simp
next
  case (Cons x xs)
  then have "fold (append_source src) (x # xs) rs r =
      (if r \<in> set xs
       then Some ((case append_source src x rs r of None \<Rightarrow> [] | Some srcs \<Rightarrow> srcs) @ [src])
       else append_source src x rs r)"
    by simp
  also have "\<dots> = (if r \<in> set (x # xs)
       then Some ((case rs r of None \<Rightarrow> [] | Some srcs \<Rightarrow> srcs) @ [src]) else rs r)"
    using Cons.prems by (auto simp: append_source_def)
  finally show ?case .
qed

lemma fold_append_source:
  "distinct xs \<Longrightarrow> fold (append_source src) xs rs = index_source src (set xs) rs"
  by (rule ext) (simp add: fold_append_source_at index_source_def append_source_def)









lemma aggregate_empty_source:
  "aggregate [(src, {})] =
     Inr [(src, \<lparr>r_total = 0, r_duplicate = 0, r_distinct = 0, r_duplicate_rate = 0\<rparr>)]"
  by (simp add: aggregate_def report_entry_def)

lemma prune_pair_drop:
  "a \<notin> prune_subdomain {a, b} \<Longrightarrow> b \<in> prune_subdomain {a, b} \<Longrightarrow> prune_subdomain {a, b} = {b}"
  using prune_subdomain_subset [of "{a, b}"] by auto

lemma prune_single: "prune_subdomain {b} = {b}"
  by (auto simp: prune_subdomain_iff strict_subdomain_irrefl)

lemma aggregate_shared_rule:
  "s1 \<noteq> s2 \<Longrightarrow>
     aggregate [(s1, {x}), (s2, {x})] =
       Inr [(s1, \<lparr>r_total = 1, r_duplicate = 1, r_distinct = 0, r_duplicate_rate = 1\<rparr>),
            (s2, \<lparr>r_total = 1, r_duplicate = 1, r_distinct = 0, r_duplicate_rate = 1\<rparr>)]"
  by (simp add: aggregate_def report_entry_def index_source_def append_source_def)

text \<open>
  C7. End to end, for two different sources: the rules \<open>||ads.example.com^\<close> and
  \<open>||example.com^\<close> of the first prune to \<open>||example.com^\<close> alone, the rule
  \<open>||example.com^\<close> of the second stays, and the report gives both sources total 1,
  duplicate 1, distinct 0 and duplicate rate 1, whichever source is stored first.
\<close>

theorem end_to_end_two_sources:
  assumes "s1 \<noteq> s2"
  shows "prune_subdomain {''||ads.example.com^'', ''||example.com^''} = {''||example.com^''}
    \<and> prune_subdomain {''||example.com^''} = {''||example.com^''}
    \<and> aggregate (store_pruned s2 {''||example.com^''}
           (store_pruned s1 {''||ads.example.com^'', ''||example.com^''} [])) =
         Inr [(s1, \<lparr>r_total = 1, r_duplicate = 1, r_distinct = 0, r_duplicate_rate = 1\<rparr>),
              (s2, \<lparr>r_total = 1, r_duplicate = 1, r_distinct = 0, r_duplicate_rate = 1\<rparr>)]
    \<and> aggregate (store_pruned s1 {''||ads.example.com^'', ''||example.com^''}
           (store_pruned s2 {''||example.com^''} [])) =
         Inr [(s2, \<lparr>r_total = 1, r_duplicate = 1, r_distinct = 0, r_duplicate_rate = 1\<rparr>),
              (s1, \<lparr>r_total = 1, r_duplicate = 1, r_distinct = 0, r_duplicate_rate = 1\<rparr>)]"
proof -
  have a: "''||ads.example.com^'' \<notin> prune_subdomain {''||ads.example.com^'', ''||example.com^''}"
    by (simp add: prune_subdomain_def domain_of_def)
  have b: "''||example.com^'' \<in> prune_subdomain {''||ads.example.com^'', ''||example.com^''}"
    by (simp add: prune_subdomain_def domain_of_def)
  from a b have p1: "prune_subdomain {''||ads.example.com^'', ''||example.com^''} = {''||example.com^''}"
    by (rule prune_pair_drop)
  have p2: "prune_subdomain {''||example.com^''} = {''||example.com^''}"
    by (rule prune_single)
  from assms have ne: "s2 \<noteq> s1" by (rule not_sym)
  have r1: "aggregate (store_pruned s2 {''||example.com^''}
           (store_pruned s1 {''||ads.example.com^'', ''||example.com^''} [])) =
         Inr [(s1, \<lparr>r_total = 1, r_duplicate = 1, r_distinct = 0, r_duplicate_rate = 1\<rparr>),
              (s2, \<lparr>r_total = 1, r_duplicate = 1, r_distinct = 0, r_duplicate_rate = 1\<rparr>)]"
    unfolding store_pruned_def p1 p2 using assms
    by (simp add: aggregate_shared_rule)
  have r2: "aggregate (store_pruned s1 {''||ads.example.com^'', ''||example.com^''}
           (store_pruned s2 {''||example.com^''} [])) =
         Inr [(s2, \<lparr>r_total = 1, r_duplicate = 1, r_distinct = 0, r_duplicate_rate = 1\<rparr>),
              (s1, \<lparr>r_total = 1, r_duplicate = 1, r_distinct = 0, r_duplicate_rate = 1\<rparr>)]"
    unfolding store_pruned_def p1 p2 using ne
    by (simp add: aggregate_shared_rule)
  from p1 p2 r1 r2 show ?thesis
    by (intro conjI)
qed

theorem end_to_end_two_sources_witness:
  "''source1'' \<noteq> ''source2''
   \<and> prune_subdomain {''||ads.example.com^'', ''||example.com^''} = {''||example.com^''}
   \<and> prune_subdomain {''||example.com^''} = {''||example.com^''}
   \<and> aggregate (store_pruned ''source2'' {''||example.com^''}
           (store_pruned ''source1'' {''||ads.example.com^'', ''||example.com^''} [])) =
         Inr [(''source1'', \<lparr>r_total = 1, r_duplicate = 1, r_distinct = 0, r_duplicate_rate = 1\<rparr>),
              (''source2'', \<lparr>r_total = 1, r_duplicate = 1, r_distinct = 0, r_duplicate_rate = 1\<rparr>)]
   \<and> aggregate (store_pruned ''source1'' {''||ads.example.com^'', ''||example.com^''}
           (store_pruned ''source2'' {''||example.com^''} [])) =
         Inr [(''source2'', \<lparr>r_total = 1, r_duplicate = 1, r_distinct = 0, r_duplicate_rate = 1\<rparr>),
              (''source1'', \<lparr>r_total = 1, r_duplicate = 1, r_distinct = 0, r_duplicate_rate = 1\<rparr>)]"
proof -
  have h: "''source1'' \<noteq> ''source2''" by simp
  from h end_to_end_two_sources [OF h] show ?thesis
    by (rule conjI)
qed

subsection \<open>Derivatives decide membership\<close>

lemma conc_iff: "w \<in> conc A B \<longleftrightarrow> (\<exists>u v. w = u @ v \<and> u \<in> A \<and> v \<in> B)"
  by (auto simp: conc_def)

lemma nullable_iff: "nullable r \<longleftrightarrow> [] \<in> lang r"
  by (induction r) (auto simp: conc_iff intro: kleene.kleene_Nil)

lemma kleene_Cons_iff:
  "c # w \<in> kleene A \<longleftrightarrow> (\<exists>u v. w = u @ v \<and> c # u \<in> A \<and> v \<in> kleene A)"
proof
  assume "c # w \<in> kleene A"
  then show "\<exists>u v. w = u @ v \<and> c # u \<in> A \<and> v \<in> kleene A"
  proof (induction "c # w" rule: kleene.induct)
    case (kleene_step u v)
    show ?case
    proof (cases u)
      case Nil
      with kleene_step show ?thesis by simp
    next
      case (Cons a u')
      with kleene_step.hyps have "w = u' @ v \<and> c # u' \<in> A \<and> v \<in> kleene A"
        by simp
      then show ?thesis by blast
    qed
  qed
next
  assume "\<exists>u v. w = u @ v \<and> c # u \<in> A \<and> v \<in> kleene A"
  then obtain u v where "w = u @ v" "c # u \<in> A" "v \<in> kleene A" by blast
  then have "(c # u) @ v \<in> kleene A" and "c # w = (c # u) @ v"
    using kleene.kleene_step [of "c # u" A v] by simp_all
  then show "c # w \<in> kleene A" by simp
qed

lemma conc_Cons_iff:
  "c # w \<in> conc A B \<longleftrightarrow>
     (\<exists>u v. w = u @ v \<and> c # u \<in> A \<and> v \<in> B) \<or> ([] \<in> A \<and> c # w \<in> B)"
  by (auto simp: conc_iff Cons_eq_append_conv)

lemma conc_deriv_set:
  "conc {w. c # w \<in> A} B = {w. \<exists>u v. w = u @ v \<and> c # u \<in> A \<and> v \<in> B}"
  by (auto simp: conc_def)

lemma lang_deriv: "lang (deriv c r) = {w. c # w \<in> lang r}"
proof (induction r)
  case (Seq r s)
  then have "lang (deriv c (Seq r s)) =
      conc {w. c # w \<in> lang r} (lang s) \<union> (if [] \<in> lang r then {w. c # w \<in> lang s} else {})"
    by (simp add: nullable_iff)
  also have "\<dots> = {w. c # w \<in> conc (lang r) (lang s)}"
    by (auto simp: conc_deriv_set conc_Cons_iff)
  finally show ?case by simp
next
  case (Star r)
  then have "lang (deriv c (Star r)) = conc {w. c # w \<in> lang r} (kleene (lang r))"
    by simp
  also have "\<dots> = {w. c # w \<in> kleene (lang r)}"
    by (simp add: conc_deriv_set kleene_Cons_iff)
  finally show ?case by simp
qed auto

lemma fullmatch_iff: "fullmatch r s \<longleftrightarrow> s \<in> lang r"
  unfolding fullmatch_def
proof (induction s arbitrary: r)
  case Nil
  show ?case by (simp add: nullable_iff)
next
  case (Cons c cs)
  then show ?case by (simp add: lang_deriv)
qed

subsection \<open>The words of the pattern\<close>

lemma kleene_chars: "w \<in> kleene {[c] |c. c \<in> S} \<longleftrightarrow> set w \<subseteq> S"
proof
  assume "w \<in> kleene {[c] |c. c \<in> S}"
  then show "set w \<subseteq> S"
    by (induction rule: kleene.induct) auto
next
  assume "set w \<subseteq> S"
  then show "w \<in> kleene {[c] |c. c \<in> S}"
  proof (induction w)
    case Nil
    show ?case by (rule kleene.kleene_Nil)
  next
    case (Cons c w)
    then have "[c] \<in> {[c] |c. c \<in> S}" "w \<in> kleene {[c] |c. c \<in> S}" by simp_all
    then have "[c] @ w \<in> kleene {[c] |c. c \<in> S}" by (rule kleene.kleene_step)
    then show ?case by simp
  qed
qed

lemma kleene_Class: "w \<in> kleene (lang (Class cs)) \<longleftrightarrow> set w \<subseteq> set cs"
  by (simp add: kleene_chars)

lemma concI: "u \<in> A \<Longrightarrow> v \<in> B \<Longrightarrow> u @ v \<in> conc A B"
  by (auto simp: conc_def)

lemma conc4_iff:
  "d \<in> conc A (conc B (conc C D)) \<longleftrightarrow>
     (\<exists>a b c e. d = a @ b @ c @ e \<and> a \<in> A \<and> b \<in> B \<and> c \<in> C \<and> e \<in> D)"
  unfolding conc_iff by blast

lemma lang_dot: "u \<in> lang (Class ''.'') \<longleftrightarrow> u = ''.''"
  by auto

lemma alnum_hyphen_iff: "c \<in> set alnum_hyphen \<longleftrightarrow> c \<in> set alnum \<or> c = CHR ''-''"
  by (auto simp: alnum_hyphen_def alnum_def)

lemma hyphen_not_alnum: "CHR ''-'' \<notin> set alnum"
  by (simp add: alnum_def)

lemma letters_alnum: "c \<in> set letters \<Longrightarrow> c \<in> set alnum"
  by (auto simp: letters_def alnum_def)

lemma dot_not_alnum_hyphen: "CHR ''.'' \<notin> set alnum_hyphen"
  by (simp add: alnum_hyphen_def)

lemma lang_label_pattern: "l \<in> lang label_pattern \<longleftrightarrow> is_label l"
proof
  assume "l \<in> lang label_pattern"
  then obtain a rest where l: "l = a # rest" and a: "a \<in> set alnum"
    and rest: "rest = [] \<or> (\<exists>h b. rest = h @ [b] \<and> set h \<subseteq> set alnum_hyphen \<and> b \<in> set alnum)"
    by (auto simp: label_pattern_def Opt_def conc_iff kleene_chars)
  from rest show "is_label l"
  proof
    assume "rest = []"
    with l a show ?thesis
      using hyphen_not_alnum by (auto simp: is_label_def alnum_hyphen_iff)
  next
    assume "\<exists>h b. rest = h @ [b] \<and> set h \<subseteq> set alnum_hyphen \<and> b \<in> set alnum"
    then obtain h b where "rest = h @ [b]" "set h \<subseteq> set alnum_hyphen" "b \<in> set alnum"
      by blast
    with l a show ?thesis
      using hyphen_not_alnum by (auto simp: is_label_def alnum_hyphen_iff)
  qed
next
  assume lab: "is_label l"
  then obtain a rest where l: "l = a # rest"
    by (cases l) (auto simp: is_label_def)
  with lab have a: "a \<in> set alnum"
    by (auto simp: is_label_def alnum_hyphen_iff)
  then have a': "[a] \<in> lang (Class alnum)" by simp
  have "rest \<in> lang (Opt (Seq (Star (Class alnum_hyphen)) (Class alnum)))"
  proof (cases "rest = []")
    case True
    then show ?thesis by (simp add: Opt_def)
  next
    case False
    then obtain h b where rest: "rest = h @ [b]"
      by (metis append_butlast_last_id)
    with lab l have "set h \<subseteq> set alnum_hyphen" "b \<in> set alnum"
      by (auto simp: is_label_def alnum_hyphen_iff)
    then have "h \<in> kleene (lang (Class alnum_hyphen))" "[b] \<in> lang (Class alnum)"
      by (simp_all add: kleene_chars)
    then have "h @ [b] \<in> conc (kleene (lang (Class alnum_hyphen))) (lang (Class alnum))"
      by (rule concI)
    with rest show ?thesis by (simp add: Opt_def)
  qed
  with a' have "[a] @ rest \<in> conc (lang (Class alnum))
      (lang (Opt (Seq (Star (Class alnum_hyphen)) (Class alnum))))"
    by (rule concI)
  with l show "l \<in> lang label_pattern"
    by (simp add: label_pattern_def)
qed

lemma lang_tld:
  "t \<in> lang (AtLeast 2 (Class letters)) \<longleftrightarrow> 2 \<le> length t \<and> set t \<subseteq> set letters"
proof
  assume "t \<in> lang (AtLeast 2 (Class letters))"
  then show "2 \<le> length t \<and> set t \<subseteq> set letters"
    by (auto simp: numeral_2_eq_2 conc_iff kleene_chars)
next
  assume h: "2 \<le> length t \<and> set t \<subseteq> set letters"
  then obtain a b w where t: "t = a # b # w"
    by (cases t; cases "tl t") auto
  with h have "[a] \<in> lang (Class letters)" "[b] \<in> lang (Class letters)"
    "w \<in> kleene (lang (Class letters))"
    by (simp_all add: kleene_chars)
  then have "[a] @ [b] @ w \<in> conc (lang (Class letters))
      (conc (lang (Class letters)) (kleene (lang (Class letters))))"
    by (intro concI)
  with t show "t \<in> lang (AtLeast 2 (Class letters))"
    by (simp add: numeral_2_eq_2)
qed

lemma kleene_dot_labels:
  "w \<in> kleene (conc (lang (Class ''.'')) (lang label_pattern)) \<longleftrightarrow>
     (\<exists>ls. (\<forall>l \<in> set ls. is_label l) \<and> w = concat (map ((#) CHR ''.'') ls))"
proof
  assume "w \<in> kleene (conc (lang (Class ''.'')) (lang label_pattern))"
  then show "\<exists>ls. (\<forall>l \<in> set ls. is_label l) \<and> w = concat (map ((#) CHR ''.'') ls)"
  proof (induction rule: kleene.induct)
    case kleene_Nil
    have "(\<forall>l \<in> set []. is_label l) \<and> [] = concat (map ((#) CHR ''.'') [])" by simp
    then show ?case by blast
  next
    case (kleene_step u v)
    from kleene_step.hyps(1) obtain l where u: "u = CHR ''.'' # l" "is_label l"
      by (auto simp: conc_iff lang_label_pattern)
    from kleene_step.IH obtain ls where ls: "\<forall>l \<in> set ls. is_label l"
      "v = concat (map ((#) CHR ''.'') ls)" by blast
    from u ls have "(\<forall>x \<in> set (l # ls). is_label x) \<and> u @ v = concat (map ((#) CHR ''.'') (l # ls))"
      by simp
    then show ?case by blast
  qed
next
  assume "\<exists>ls. (\<forall>l \<in> set ls. is_label l) \<and> w = concat (map ((#) CHR ''.'') ls)"
  then obtain ls where "\<forall>l \<in> set ls. is_label l" "w = concat (map ((#) CHR ''.'') ls)"
    by blast
  then show "w \<in> kleene (conc (lang (Class ''.'')) (lang label_pattern))"
  proof (induction ls arbitrary: w)
    case Nil
    then show ?case by (simp add: kleene.kleene_Nil)
  next
    case (Cons l ls)
    then have "CHR ''.'' # l \<in> conc (lang (Class ''.'')) (lang label_pattern)"
      by (auto simp: conc_iff lang_label_pattern)
    moreover from Cons have "concat (map ((#) CHR ''.'') ls)
        \<in> kleene (conc (lang (Class ''.'')) (lang label_pattern))"
      by simp
    ultimately have "(CHR ''.'' # l) @ concat (map ((#) CHR ''.'') ls)
        \<in> kleene (conc (lang (Class ''.'')) (lang label_pattern))"
      by (rule kleene.kleene_step)
    with Cons.prems(2) show ?case by simp
  qed
qed

lemma lang_domain_pattern:
  "d \<in> lang domain_pattern \<longleftrightarrow>
     (\<exists>l0 ls t. is_label l0 \<and> (\<forall>l \<in> set ls. is_label l) \<and> 2 \<le> length t \<and> set t \<subseteq> set letters
        \<and> d = l0 @ concat (map ((#) CHR ''.'') ls) @ CHR ''.'' # t)"
proof -
  have "d \<in> lang domain_pattern \<longleftrightarrow>
      (\<exists>l0 m x t. d = l0 @ m @ x @ t \<and> l0 \<in> lang label_pattern
         \<and> m \<in> kleene (conc (lang (Class ''.'')) (lang label_pattern))
         \<and> x \<in> lang (Class ''.'') \<and> t \<in> lang (AtLeast 2 (Class letters)))"
    unfolding domain_pattern_def lang.simps(4,6) by (rule conc4_iff)
  also have "\<dots> \<longleftrightarrow> (\<exists>l0 ls t. is_label l0 \<and> (\<forall>l \<in> set ls. is_label l) \<and> 2 \<le> length t
        \<and> set t \<subseteq> set letters \<and> d = l0 @ concat (map ((#) CHR ''.'') ls) @ CHR ''.'' # t)"
    unfolding lang_label_pattern kleene_dot_labels lang_tld lang_dot by auto
  finally show ?thesis .
qed

subsection \<open>The pattern and the grammar of the specification\<close>

lemma join_dot_Cons: "join_str ''.'' (l # ls) = l @ concat (map ((#) CHR ''.'') ls)"
  by (induction ls arbitrary: l) simp_all

lemma split_on_no_sep: "sep \<notin> set l \<Longrightarrow> split_on sep l = [l]"
  by (induction l) auto

lemma split_on_join:
  "ls \<noteq> [] \<Longrightarrow> \<forall>l \<in> set ls. sep \<notin> set l \<Longrightarrow> split_on sep (join_str [sep] ls) = ls"
proof (induction ls)
  case Nil
  then show ?case by simp
next
  case (Cons l ls)
  show ?case
  proof (cases "ls = []")
    case True
    with Cons.prems show ?thesis by (simp add: split_on_no_sep)
  next
    case False
    then have "join_str [sep] (l # ls) = l @ sep # join_str [sep] ls"
      by (simp add: join_str_Cons)
    then have "split_on sep (join_str [sep] (l # ls)) = split_on sep l @ split_on sep (join_str [sep] ls)"
      by (simp only: split_on_append_sep)
    with Cons False show ?thesis by (simp add: split_on_no_sep)
  qed
qed

lemma set_split_on: "l \<in> set (split_on sep s) \<Longrightarrow> set l \<subseteq> set s \<and> sep \<notin> set l"
proof (induction s arbitrary: l)
  case Nil
  then show ?case by simp
next
  case (Cons c s)
  obtain p ps where ps: "split_on sep s = p # ps"
    using split_on_not_Nil [of sep s] by (cases "split_on sep s") auto
  with Cons.IH have IH: "\<And>l. l \<in> set (p # ps) \<Longrightarrow> set l \<subseteq> set s \<and> sep \<notin> set l" by simp
  show ?case
  proof (cases "c = sep")
    case True
    with Cons.prems ps IH show ?thesis by auto
  next
    case False
    with Cons.prems ps have l: "l = c # p \<or> l \<in> set ps" by simp
    have p: "set p \<subseteq> set s \<and> sep \<notin> set p" using IH [of p] by simp
    from l show ?thesis
    proof
      assume "l = c # p"
      with p False show ?thesis by auto
    next
      assume "l \<in> set ps"
      then have "set l \<subseteq> set s \<and> sep \<notin> set l" using IH [of l] by simp
      then show ?thesis by auto
    qed
  qed
qed

lemma set_join_str: "c \<in> set (join_str sep ls) \<Longrightarrow> c \<in> set sep \<or> (\<exists>l \<in> set ls. c \<in> set l)"
  by (induction sep ls rule: join_str.induct) auto

lemma is_label_no_dot: "is_label l \<Longrightarrow> CHR ''.'' \<notin> set l"
  using dot_not_alnum_hyphen by (auto simp: is_label_def)

lemma tld_is_label:
  assumes "2 \<le> length t" and "set t \<subseteq> set letters"
  shows "is_label t"
proof -
  from assms(1) have ne: "t \<noteq> []" by auto
  then have "hd t \<in> set t" "last t \<in> set t" by simp_all
  with assms(2) have "hd t \<in> set alnum" "last t \<in> set alnum"
    by (auto dest: letters_alnum)
  with assms(2) ne show ?thesis
    using hyphen_not_alnum by (auto simp: is_label_def alnum_hyphen_iff dest: letters_alnum)
qed

lemma fullmatch_label_grammar: "fullmatch domain_pattern d \<longleftrightarrow> label_grammar d"
proof
  assume "fullmatch domain_pattern d"
  then obtain l0 ls t where h: "is_label l0" "\<forall>l \<in> set ls. is_label l" "2 \<le> length t"
    "set t \<subseteq> set letters" "d = l0 @ concat (map ((#) CHR ''.'') ls) @ CHR ''.'' # t"
    unfolding fullmatch_iff lang_domain_pattern by blast
  let ?labels = "l0 # ls @ [t]"
  have t: "is_label t" using h(3,4) by (rule tld_is_label)
  with h have all: "\<forall>l \<in> set ?labels. is_label l" by simp
  then have nodot: "\<forall>l \<in> set ?labels. CHR ''.'' \<notin> set l"
    using is_label_no_dot by blast
  have "d = join_str ''.'' ?labels"
    using h(5) by (simp add: join_dot_Cons)
  then have "split_on CHR ''.'' d = ?labels"
    using split_on_join [of ?labels "CHR ''.''"] nodot by simp
  with all h(3,4) show "label_grammar d"
    by (auto simp: label_grammar_def)
next
  assume g: "label_grammar d"
  let ?labels = "split_on CHR ''.'' d"
  from g have len: "2 \<le> length ?labels" and all: "\<forall>l \<in> set ?labels. is_label l"
    and tl: "2 \<le> length (last ?labels)" "\<forall>c \<in> set (last ?labels). c \<in> set letters"
    by (simp_all add: label_grammar_def Let_def)
  from len obtain l0 rest where lr: "?labels = l0 # rest"
    by (cases ?labels) auto
  with len have "rest \<noteq> []" by auto
  then obtain ls t where rest: "rest = ls @ [t]"
    by (metis append_butlast_last_id)
  have "d = join_str ''.'' ?labels" by (simp add: join_split_on)
  with lr rest have d: "d = l0 @ concat (map ((#) CHR ''.'') ls) @ CHR ''.'' # t"
    by (simp add: join_dot_Cons)
  from lr rest all tl have "is_label l0" "\<forall>l \<in> set ls. is_label l"
    "2 \<le> length t" "set t \<subseteq> set letters"
    by auto
  with d show "fullmatch domain_pattern d"
    unfolding fullmatch_iff lang_domain_pattern by blast
qed

subsection \<open>Characters\<close>

lemma length_uppercase: "length uppercase = length lowercase"
  by (simp add: uppercase_def lowercase_def)

lemma lower_char_id: "c \<notin> set uppercase \<Longrightarrow> lower_char c = c"
  using map_of_zip_is_None [OF length_uppercase, of c] by (simp add: lower_char_def)

lemma lower_char_upper: "c \<in> set uppercase \<Longrightarrow> lower_char c \<in> set lowercase"
proof -
  assume "c \<in> set uppercase"
  then obtain l where l: "map_of (zip uppercase lowercase) c = Some l"
    using map_of_zip_is_None [OF length_uppercase, of c] by auto
  then have "(c, l) \<in> set (zip uppercase lowercase)" by (rule map_of_SomeD)
  then have "l \<in> set lowercase" by (rule set_zip_rightD)
  with l show ?thesis by (simp add: lower_char_def)
qed

lemma space_not_upper: "isspace c \<Longrightarrow> c \<notin> set uppercase"
  by (auto simp: isspace_def whitespace_def uppercase_def)

lemma lowercase_not_space: "c \<in> set lowercase \<Longrightarrow> \<not> isspace c"
  by (auto simp: isspace_def whitespace_def lowercase_def)

lemma isspace_lower_char: "isspace (lower_char c) \<longleftrightarrow> isspace c"
proof (cases "c \<in> set uppercase")
  case True
  then show ?thesis
    using lower_char_upper [of c] lowercase_not_space space_not_upper by blast
next
  case False
  then show ?thesis by (simp add: lower_char_id)
qed

lemma rule_chars_not_upper: "c \<in> set rule_chars \<Longrightarrow> c \<notin> set uppercase"
  by (auto simp: rule_chars_def alnum_hyphen_def uppercase_def)

lemma rule_chars_not_space: "c \<in> set rule_chars \<Longrightarrow> \<not> isspace c"
  by (auto simp: rule_chars_def alnum_hyphen_def isspace_def whitespace_def)

lemma dollar_fixed: "lower_char CHR ''$'' = CHR ''$''" "\<not> isspace CHR ''$''"
  by (simp_all add: lower_char_id uppercase_def isspace_def whitespace_def)

subsection \<open>Stripping and lowering\<close>

lemma dropWhile_hd: "xs \<noteq> [] \<Longrightarrow> \<not> P (hd xs) \<Longrightarrow> dropWhile P xs = xs"
  by (cases xs) auto

lemma strip_pad:
  assumes pre: "\<forall>c \<in> set pre. isspace c" and post: "\<forall>c \<in> set post. isspace c"
    and m: "m \<noteq> []" "\<not> isspace (hd m)" "\<not> isspace (last m)"
  shows "strip (pre @ m @ post) = m"
proof -
  have "dropWhile isspace (pre @ m @ post) = dropWhile isspace (m @ post)"
    by (rule dropWhile_append2) (use pre in auto)
  also have "\<dots> = m @ post"
    using m(1,2) by (intro dropWhile_hd) auto
  finally have 1: "dropWhile isspace (pre @ m @ post) = m @ post" .
  have "dropWhile isspace (rev post @ rev m) = dropWhile isspace (rev m)"
    by (rule dropWhile_append2) (use post in auto)
  then have "dropWhile isspace (rev (m @ post)) = dropWhile isspace (rev m)"
    by simp
  also have "\<dots> = rev m"
    using m(1,3) by (intro dropWhile_hd) (auto simp: hd_rev)
  finally show ?thesis
    unfolding strip_def 1 by simp
qed

lemma strip_id: "m \<noteq> [] \<Longrightarrow> \<not> isspace (hd m) \<Longrightarrow> \<not> isspace (last m) \<Longrightarrow> strip m = m"
  using strip_pad [of "[]" "[]" m] by simp

lemma set_dropWhile: "c \<in> set xs \<Longrightarrow> \<not> P c \<Longrightarrow> c \<in> set (dropWhile P xs)"
  by (induction xs) auto

lemma set_strip: "c \<in> set s \<Longrightarrow> \<not> isspace c \<Longrightarrow> c \<in> set (strip s)"
proof -
  assume c: "c \<in> set s" "\<not> isspace c"
  then have "c \<in> set (rev (dropWhile isspace s))"
    by (simp add: set_dropWhile)
  from this c(2) have "c \<in> set (dropWhile isspace (rev (dropWhile isspace s)))"
    by (rule set_dropWhile)
  then show ?thesis by (simp add: strip_def)
qed

lemma strip_lower: "strip (lower s) = lower (strip s)"
proof -
  have comp: "isspace \<circ> lower_char = isspace"
    by (rule ext) (simp add: isspace_lower_char)
  show ?thesis
    unfolding strip_def lower_def
    by (simp add: dropWhile_map rev_map comp)
qed

lemma lower_spaces: "\<forall>c \<in> set s. isspace c \<Longrightarrow> \<forall>c \<in> set (lower s). isspace c"
  by (simp add: lower_def isspace_lower_char)

lemma lower_append: "lower (xs @ ys) = lower xs @ lower ys"
  by (simp add: lower_def)

lemma lower_fixed: "\<forall>c \<in> set s. c \<notin> set uppercase \<Longrightarrow> lower s = s"
  unfolding lower_def by (rule map_idI) (simp add: lower_char_id)

subsection \<open>The envelope\<close>

lemma domain_of_envelope: "domain_of (''||'' @ d @ ''^'') = d"
  by (simp add: domain_of_def)

lemma envelope_domain:
  assumes "startswith ''||'' t" and "endswith ''^'' t"
  shows "t = ''||'' @ domain_of t @ ''^''"
proof -
  from assms(1) have t2: "take 2 t = ''||''"
    by (simp add: startswith_def numeral_2_eq_2)
  then have len2: "2 \<le> length t"
    by (metis length_take min.cobounded1 length_Cons list.size(3) One_nat_def Suc_1)
  from assms(2) have last: "drop (length t - 1) t = ''^''" and "1 \<le> length t"
    by (simp_all add: endswith_def)
  have "length t \<noteq> 2"
  proof
    assume "length t = 2"
    with t2 have "t = ''||''" by simp
    with last show False by simp
  qed
  with len2 have len3: "3 \<le> length t" by simp
  have "take 2 (take (length t - 1) t) = ''||''"
    using t2 len3 by (simp add: min_def)
  then have "take (length t - 1) t = ''||'' @ drop 2 (take (length t - 1) t)"
    by (metis append_take_drop_id)
  moreover have "t = take (length t - 1) t @ drop (length t - 1) t" by simp
  ultimately have "t = (''||'' @ drop 2 (take (length t - 1) t)) @ ''^''"
    using last by metis
  then show ?thesis by (simp add: domain_of_def)
qed

lemma envelope_iff:
  "startswith ''||'' t \<and> endswith ''^'' t \<longleftrightarrow> (\<exists>body. t = ''||'' @ body @ ''^'')"
proof
  assume h: "startswith ''||'' t \<and> endswith ''^'' t"
  from h have a: "startswith ''||'' t" by (rule conjunct1)
  from h have b: "endswith ''^'' t" by (rule conjunct2)
  from a b have "t = ''||'' @ domain_of t @ ''^''" by (rule envelope_domain)
  then show "\<exists>body. t = ''||'' @ body @ ''^''" ..
next
  assume "\<exists>body. t = ''||'' @ body @ ''^''"
  then show "startswith ''||'' t \<and> endswith ''^'' t"
    by (auto simp: startswith_def endswith_def)
qed

subsection \<open>The normalizer\<close>

lemma normalize_cases:
  "normalize line =
     (if (\<exists>body. lower (strip line) = ''||'' @ body @ ''^'')
         \<and> CHR ''$'' \<notin> set (lower (strip line))
         \<and> label_grammar (domain_of (lower (strip line)))
      then lower (strip line) else [])"
  unfolding normalize_def Let_def fullmatch_label_grammar envelope_iff [symmetric]
  by simp

lemma domain_of_envelope_Cons: "domain_of (CHR ''|'' # CHR ''|'' # d @ ''^'') = d"
  using domain_of_envelope [of d] by simp

lemma label_chars: "is_label l \<Longrightarrow> c \<in> set l \<Longrightarrow> c \<in> set rule_chars"
  by (auto simp: is_label_def rule_chars_def)

lemma label_grammar_chars:
  assumes "label_grammar d" and "c \<in> set d"
  shows "c \<in> set rule_chars"
proof -
  have "d = join_str ''.'' (split_on CHR ''.'' d)" by (simp add: join_split_on)
  with assms(2) have "c \<in> set (join_str ''.'' (split_on CHR ''.'' d))" by simp
  then have "c \<in> set ''.'' \<or> (\<exists>l \<in> set (split_on CHR ''.'' d). c \<in> set l)"
    by (rule set_join_str)
  then show ?thesis
  proof
    assume "c \<in> set ''.''"
    then show ?thesis by (simp add: rule_chars_def)
  next
    assume "\<exists>l \<in> set (split_on CHR ''.'' d). c \<in> set l"
    then obtain l where "l \<in> set (split_on CHR ''.'' d)" "c \<in> set l" by blast
    with assms(1) show ?thesis
      using label_chars [of l c] by (simp add: label_grammar_def Let_def)
  qed
qed

lemma rule_chars_envelope:
  assumes "label_grammar d" and "c \<in> set (''||'' @ d @ ''^'')"
  shows "c \<in> set rule_chars"
proof -
  from assms(2) have "c = CHR ''|'' \<or> c = CHR ''^'' \<or> c \<in> set d" by auto
  then show ?thesis
    using label_grammar_chars [OF assms(1), of c] by (auto simp: rule_chars_def)
qed

lemma dollar_not_rule_char: "CHR ''$'' \<notin> set rule_chars"
  by (simp add: rule_chars_def alnum_hyphen_def)

lemma rule_fixed:
  assumes "label_grammar d"
  shows "lower (strip (''||'' @ d @ ''^'')) = ''||'' @ d @ ''^''"
proof -
  let ?r = "''||'' @ d @ ''^''"
  have "\<not> isspace CHR ''|''" "\<not> isspace CHR ''^''"
    by (simp_all add: isspace_def whitespace_def)
  then have "strip ?r = ?r"
    by (intro strip_id) simp_all
  moreover have "lower ?r = ?r"
    by (rule lower_fixed) (use rule_chars_envelope [OF assms] rule_chars_not_upper in blast)
  ultimately show ?thesis by simp
qed

lemma normalize_accepts_core:
  assumes "label_grammar d" and "lower (strip line) = ''||'' @ d @ ''^''"
  shows "normalize line = ''||'' @ d @ ''^''"
proof -
  have "CHR ''$'' \<notin> set (''||'' @ d @ ''^'')"
    using rule_chars_envelope [OF assms(1), of "CHR ''$''"] dollar_not_rule_char by blast
  moreover have "\<exists>body. ''||'' @ d @ ''^'' = ''||'' @ body @ ''^''" by blast
  ultimately show ?thesis
    unfolding normalize_cases assms(2) domain_of_envelope using assms(1) by simp
qed

lemma normalize_Nil: "normalize [] = []"
  by (simp add: normalize_cases strip_def lower_def)

lemma normalize_result:
  "normalize line = [] \<or>
     (\<exists>d. label_grammar d \<and> normalize line = ''||'' @ d @ ''^'' \<and> lower (strip line) = ''||'' @ d @ ''^'')"
proof (cases "normalize line = []")
  case True
  then show ?thesis by simp
next
  case False
  then have h: "\<exists>body. lower (strip line) = ''||'' @ body @ ''^''"
    "label_grammar (domain_of (lower (strip line)))" "normalize line = lower (strip line)"
    by (auto simp: normalize_cases split: if_splits)
  from h(1) obtain body where b: "lower (strip line) = ''||'' @ body @ ''^''" ..
  with h(2) have "label_grammar body" by (simp add: domain_of_envelope_Cons)
  with b h(3) show ?thesis by auto
qed

lemma normalize_idem: "normalize (normalize line) = normalize line"
proof -
  from normalize_result [of line] show ?thesis
  proof
    assume "normalize line = []"
    then show ?thesis by (simp add: normalize_Nil)
  next
    assume "\<exists>d. label_grammar d \<and> normalize line = ''||'' @ d @ ''^''
        \<and> lower (strip line) = ''||'' @ d @ ''^''"
    then obtain d where d: "label_grammar d" "normalize line = ''||'' @ d @ ''^''" by blast
    from d(1) have "normalize (''||'' @ d @ ''^'') = ''||'' @ d @ ''^''"
      by (intro normalize_accepts_core rule_fixed)
    with d(2) show ?thesis by simp
  qed
qed

lemma canonical_rule_iff:
  "canonical_rule r \<longleftrightarrow> (\<exists>d. r = ''||'' @ d @ ''^'' \<and> label_grammar d)"
proof
  assume c: "canonical_rule r"
  then have "r = ''||'' @ domain_of r @ ''^''"
    by (intro envelope_domain) (simp_all add: canonical_rule_def)
  with c show "\<exists>d. r = ''||'' @ d @ ''^'' \<and> label_grammar d"
    unfolding canonical_rule_def by blast
next
  assume "\<exists>d. r = ''||'' @ d @ ''^'' \<and> label_grammar d"
  then obtain d where d: "r = ''||'' @ d @ ''^''" "label_grammar d" by blast
  then have "startswith ''||'' r \<and> endswith ''^'' r"
    unfolding envelope_iff by blast
  with d show "canonical_rule r"
    by (simp add: canonical_rule_def domain_of_envelope_Cons)
qed

lemma normalize_canonical: "normalize line \<noteq> [] \<Longrightarrow> canonical_rule (normalize line)"
  using normalize_result [of line] unfolding canonical_rule_iff by blast

lemma canonical_normalize: "canonical_rule r \<Longrightarrow> normalize r = r"
proof -
  assume "canonical_rule r"
  then obtain d where d: "r = ''||'' @ d @ ''^''" "label_grammar d"
    unfolding canonical_rule_iff by blast
  from d(2) have "normalize (''||'' @ d @ ''^'') = ''||'' @ d @ ''^''"
    by (intro normalize_accepts_core rule_fixed)
  with d(1) show ?thesis by simp
qed

subsection \<open>Claims about the normalizer\<close>

text \<open>
  C4. For a domain \<open>d\<close> of the label grammar, a line made of \<open>||d^\<close> in any mix of upper and
  lower case, with any whitespace before and after, is normalized to \<open>||d^\<close>, which is the
  line trimmed and lowercased; normalizing the result again returns it unchanged.
\<close>

theorem normalize_accepts:
  assumes "label_grammar d"
    and "\<forall>c \<in> set pre. isspace c" and "\<forall>c \<in> set post. isspace c"
    and "lower body = ''||'' @ d @ ''^''"
  shows "normalize (pre @ body @ post) = ''||'' @ d @ ''^''
    \<and> normalize (pre @ body @ post) = lower (strip (pre @ body @ post))
    \<and> normalize (normalize (pre @ body @ post)) = normalize (pre @ body @ post)"
proof -
  let ?r = "''||'' @ d @ ''^''"
  have "\<not> isspace CHR ''|''" "\<not> isspace CHR ''^''"
    by (simp_all add: isspace_def whitespace_def)
  then have r: "?r \<noteq> []" "\<not> isspace (hd ?r)" "\<not> isspace (last ?r)" by simp_all
  have "lower (strip (pre @ body @ post)) = strip (lower pre @ ?r @ lower post)"
    using assms(4) by (simp only: strip_lower [symmetric] lower_append)
  also have "\<dots> = ?r"
    using lower_spaces [OF assms(2)] lower_spaces [OF assms(3)] r by (rule strip_pad)
  finally have low: "lower (strip (pre @ body @ post)) = ?r" .
  with assms(1) have n: "normalize (pre @ body @ post) = ?r"
    by (rule normalize_accepts_core)
  from n low normalize_idem [of "pre @ body @ post"] show ?thesis
    by (simp only: simp_thms)
qed

theorem normalize_accepts_witness:
  "label_grammar ''a.io''
   \<and> isspace (CHR 0x20) \<and> isspace (CHR 0x09) \<and> isspace (CHR 0x0D) \<and> isspace (CHR 0x0A)
   \<and> lower ''||A.Io^'' = ''||'' @ ''a.io'' @ ''^''
   \<and> (normalize ([CHR 0x20, CHR 0x09] @ ''||A.Io^'' @ [CHR 0x0D, CHR 0x0A]) = ''||'' @ ''a.io'' @ ''^''
      \<and> normalize ([CHR 0x20, CHR 0x09] @ ''||A.Io^'' @ [CHR 0x0D, CHR 0x0A])
          = lower (strip ([CHR 0x20, CHR 0x09] @ ''||A.Io^'' @ [CHR 0x0D, CHR 0x0A]))
      \<and> normalize (normalize ([CHR 0x20, CHR 0x09] @ ''||A.Io^'' @ [CHR 0x0D, CHR 0x0A]))
          = normalize ([CHR 0x20, CHR 0x09] @ ''||A.Io^'' @ [CHR 0x0D, CHR 0x0A]))"
proof -
  have g: "label_grammar ''a.io''"
    by (simp add: label_grammar_def is_label_def alnum_hyphen_def letters_def)
  have sp: "isspace (CHR 0x20)" "isspace (CHR 0x09)" "isspace (CHR 0x0D)" "isspace (CHR 0x0A)"
    by (simp_all add: isspace_def whitespace_def)
  then have p: "\<forall>c \<in> set [CHR 0x20, CHR 0x09]. isspace c"
    and q: "\<forall>c \<in> set [CHR 0x0D, CHR 0x0A]. isspace c"
    by simp_all
  have l: "lower ''||A.Io^'' = ''||'' @ ''a.io'' @ ''^''"
    by (simp add: lower_def lower_char_def uppercase_def lowercase_def)
  note r = normalize_accepts [OF g p q l]
  from g sp l r [THEN conjunct1] r [THEN conjunct2, THEN conjunct1]
    r [THEN conjunct2, THEN conjunct2]
  show ?thesis
    by (intro conjI)
qed

text \<open>
  C5. A line that contains \<open>$\<close>, or that trimmed and lowercased is not of the shape
  \<open>||body^\<close>, or whose body is not a domain of the label grammar, is normalized to the empty
  string. The normalizer is a total function: no line makes it raise.
\<close>

theorem normalize_rejects:
  assumes "CHR ''$'' \<in> set line
    \<or> \<not> (\<exists>body. lower (strip line) = ''||'' @ body @ ''^'')
    \<or> \<not> label_grammar (domain_of (lower (strip line)))"
  shows "normalize line = []"
proof -
  have "CHR ''$'' \<in> set (lower (strip line))" if "CHR ''$'' \<in> set line"
  proof -
    from that have "CHR ''$'' \<in> set (strip line)"
      using dollar_fixed(2) by (rule set_strip)
    then have "lower_char CHR ''$'' \<in> set (lower (strip line))"
      unfolding lower_def by simp
    then show ?thesis by (simp only: dollar_fixed(1))
  qed
  with assms show ?thesis
    unfolding normalize_cases by auto
qed

theorem normalize_rejects_witness:
  "((CHR ''$'' \<in> set ''||a.io$x^''
      \<or> \<not> (\<exists>body. lower (strip ''||a.io$x^'') = ''||'' @ body @ ''^'')
      \<or> \<not> label_grammar (domain_of (lower (strip ''||a.io$x^''))))
     \<and> normalize ''||a.io$x^'' = [])
   \<and> ((CHR ''$'' \<in> set ''a.io''
      \<or> \<not> (\<exists>body. lower (strip ''a.io'') = ''||'' @ body @ ''^'')
      \<or> \<not> label_grammar (domain_of (lower (strip ''a.io''))))
     \<and> normalize ''a.io'' = [])
   \<and> ((CHR ''$'' \<in> set ''||bad^''
      \<or> \<not> (\<exists>body. lower (strip ''||bad^'') = ''||'' @ body @ ''^'')
      \<or> \<not> label_grammar (domain_of (lower (strip ''||bad^''))))
     \<and> normalize ''||bad^'' = [])"
proof -
  have a: "CHR ''$'' \<in> set ''||a.io$x^''
      \<or> \<not> (\<exists>body. lower (strip ''||a.io$x^'') = ''||'' @ body @ ''^'')
      \<or> \<not> label_grammar (domain_of (lower (strip ''||a.io$x^'')))"
    by simp
  have "lower (strip ''a.io'') = ''a.io''"
    by (simp add: strip_def isspace_def whitespace_def lower_def lower_char_def
        uppercase_def lowercase_def)
  then have "\<not> (\<exists>body. lower (strip ''a.io'') = ''||'' @ body @ ''^'')"
    by simp
  then have b: "CHR ''$'' \<in> set ''a.io''
      \<or> \<not> (\<exists>body. lower (strip ''a.io'') = ''||'' @ body @ ''^'')
      \<or> \<not> label_grammar (domain_of (lower (strip ''a.io'')))"
    by (intro disjI2 disjI1)
  have "lower (strip ''||bad^'') = ''||bad^''"
    by (simp add: strip_def isspace_def whitespace_def lower_def lower_char_def
        uppercase_def lowercase_def)
  then have "\<not> label_grammar (domain_of (lower (strip ''||bad^'')))"
    by (simp add: domain_of_def label_grammar_def)
  then have c: "CHR ''$'' \<in> set ''||bad^''
      \<or> \<not> (\<exists>body. lower (strip ''||bad^'') = ''||'' @ body @ ''^'')
      \<or> \<not> label_grammar (domain_of (lower (strip ''||bad^'')))"
    by (intro disjI2)
  from a normalize_rejects [OF a] b normalize_rejects [OF b] c normalize_rejects [OF c]
  show ?thesis
    by (intro conjI)
qed

text \<open>
  C10. Every member of the set that \<^verbatim>\<open>extract_rules\<close> returns is a non-empty canonical
  rule that the normalizer leaves unchanged, and the empty string is never a member.
\<close>

theorem extract_rules_canonical:
  "[] \<notin> extract_rules content
   \<and> (\<forall>r \<in> extract_rules content. r \<noteq> [] \<and> canonical_rule r \<and> normalize r = r)"
proof -
  have "r \<noteq> [] \<and> canonical_rule r \<and> normalize r = r" if "r \<in> extract_rules content" for r
  proof -
    from that obtain line where "r = normalize line" "normalize line \<noteq> []"
      by (auto simp: extract_rules_def)
    then show ?thesis
      using normalize_canonical [of line] normalize_idem [of line] by simp
  qed
  then show ?thesis by blast
qed

theorem extract_rules_canonical_witness:
  "''||a.io^'' \<in> extract_rules (''||A.io^'' @ [CHR 0x0A] @ ''||bad^'')
   \<and> ''||a.io^'' \<noteq> [] \<and> canonical_rule ''||a.io^'' \<and> normalize ''||a.io^'' = ''||a.io^''"
proof -
  let ?c = "''||A.io^'' @ [CHR 0x0A] @ ''||bad^''"
  have n1: "normalize ''||A.io^'' = ''||a.io^''"
    by (simp add: normalize_cases strip_def isspace_def whitespace_def lower_def lower_char_def
        uppercase_def lowercase_def domain_of_def label_grammar_def is_label_def
        alnum_hyphen_def letters_def)
  have sl: "splitlines ?c = [''||A.io^'', ''||bad^'']"
    by (simp add: splitlines_def line_boundaries_def)
  have m: "''||a.io^'' \<in> extract_rules ?c"
    unfolding extract_rules_def sl using n1 by simp
  from extract_rules_canonical [of ?c] have "\<forall>r \<in> extract_rules ?c.
      r \<noteq> [] \<and> canonical_rule r \<and> normalize r = r"
    by (rule conjunct2)
  from this m have "''||a.io^'' \<noteq> [] \<and> canonical_rule ''||a.io^'' \<and> normalize ''||a.io^'' = ''||a.io^''"
    by (rule bspec)
  with m show ?thesis by (rule conjI)
qed

subsection \<open>The pruner on canonical rules\<close>

lemma canonical_envelope: "canonical_rule s \<Longrightarrow> s = ''||'' @ domain_of s @ ''^''"
  by (intro envelope_domain) (simp_all add: canonical_rule_def)

lemma canonical_parent_iff:
  assumes "\<forall>r \<in> R. canonical_rule r"
  shows "(\<exists>s \<in> R. strict_subdomain d (domain_of s))
     \<longleftrightarrow> (\<exists>anc \<in> set (ancestor_domains d). ''||'' @ anc @ ''^'' \<in> R)"
proof
  assume "\<exists>s \<in> R. strict_subdomain d (domain_of s)"
  then obtain s where s: "s \<in> R" "strict_subdomain d (domain_of s)" by blast
  with assms have "s = ''||'' @ domain_of s @ ''^''"
    by (intro canonical_envelope) blast
  with s(1) have "''||'' @ domain_of s @ ''^'' \<in> R" by simp
  with s(2) show "\<exists>anc \<in> set (ancestor_domains d). ''||'' @ anc @ ''^'' \<in> R"
    unfolding strict_subdomain_def by blast
next
  assume "\<exists>anc \<in> set (ancestor_domains d). ''||'' @ anc @ ''^'' \<in> R"
  then obtain anc where a: "anc \<in> set (ancestor_domains d)" "''||'' @ anc @ ''^'' \<in> R"
    by blast
  from a(1) have "strict_subdomain d (domain_of (''||'' @ anc @ ''^''))"
    by (simp only: domain_of_envelope strict_subdomain_def)
  with a(2) show "\<exists>s \<in> R. strict_subdomain d (domain_of s)" ..
qed

lemma label_grammar_has_dot: "label_grammar e \<Longrightarrow> CHR ''.'' \<in> set e"
proof (rule ccontr)
  assume g: "label_grammar e" and "CHR ''.'' \<notin> set e"
  then have "split_on CHR ''.'' e = [e]" by (simp add: split_on_no_sep)
  with g show False by (simp add: label_grammar_def)
qed

lemma two_labels_no_parent:
  assumes b: "CHR ''.'' \<notin> set b" and c: "CHR ''.'' \<notin> set c"
    and e: "CHR ''.'' \<in> set e"
  shows "\<not> strict_subdomain (b @ ''.'' @ c) e"
proof
  assume "strict_subdomain (b @ ''.'' @ c) e"
  then obtain x where x: "b @ ''.'' @ c = x @ ''.'' @ e"
    unfolding strict_subdomain_iff by blast
  have "split_on CHR ''.'' (b @ ''.'' @ c) = [b, c]"
    using b c by (simp add: split_on_append_sep split_on_no_sep)
  moreover have "split_on CHR ''.'' (x @ ''.'' @ e) = split_on CHR ''.'' x @ split_on CHR ''.'' e"
    by (simp add: split_on_append_sep)
  ultimately have eq: "split_on CHR ''.'' x @ split_on CHR ''.'' e = [b, c]"
    using x by simp
  obtain p ps where p: "split_on CHR ''.'' x = p # ps"
    using split_on_not_Nil [of "CHR ''.''" x] by (cases "split_on CHR ''.'' x") auto
  obtain q qs where q: "split_on CHR ''.'' e = q # qs"
    using split_on_not_Nil [of "CHR ''.''" e] by (cases "split_on CHR ''.'' e") auto
  from eq p q have "ps = []" "qs = []" "q = c"
    by (cases ps; simp)+
  with q have "split_on CHR ''.'' e = [c]" by simp
  then have "e = c"
    using join_split_on [of "CHR ''.''" e] by simp
  with e c show False by simp
qed

text \<open>
  C1. In a set of canonical rules, the pruner keeps a rule of the set exactly when no
  ancestor domain of its domain occurs as a rule \<open>||ancestor^\<close> of the set. In particular,
  for labels \<open>b\<close> and \<open>c\<close> (strings without a dot), a set of canonical rules that holds
  both \<open>||a.b.c^\<close> and \<open>||b.c^\<close> loses \<open>||a.b.c^\<close> and keeps \<open>||b.c^\<close>.
\<close>

theorem prune_keeps_iff:
  assumes "\<forall>r \<in> R. canonical_rule r"
  shows "(r \<in> R \<longrightarrow>
           (r \<in> prune_subdomain R \<longleftrightarrow>
              \<not> (\<exists>anc \<in> set (ancestor_domains (domain_of r)). ''||'' @ anc @ ''^'' \<in> R)))
    \<and> (CHR ''.'' \<notin> set b \<and> CHR ''.'' \<notin> set c
         \<and> ''||'' @ (a @ ''.'' @ b @ ''.'' @ c) @ ''^'' \<in> R \<and> ''||'' @ (b @ ''.'' @ c) @ ''^'' \<in> R
       \<longrightarrow> ''||'' @ (a @ ''.'' @ b @ ''.'' @ c) @ ''^'' \<notin> prune_subdomain R
           \<and> ''||'' @ (b @ ''.'' @ c) @ ''^'' \<in> prune_subdomain R)"
proof (intro conjI impI)
  assume "r \<in> R"
  then show "r \<in> prune_subdomain R \<longleftrightarrow>
      \<not> (\<exists>anc \<in> set (ancestor_domains (domain_of r)). ''||'' @ anc @ ''^'' \<in> R)"
    unfolding prune_subdomain_iff canonical_parent_iff [OF assms] by simp
next
  assume h: "CHR ''.'' \<notin> set b \<and> CHR ''.'' \<notin> set c
      \<and> ''||'' @ (a @ ''.'' @ b @ ''.'' @ c) @ ''^'' \<in> R \<and> ''||'' @ (b @ ''.'' @ c) @ ''^'' \<in> R"
  let ?ra = "''||'' @ (a @ ''.'' @ b @ ''.'' @ c) @ ''^''"
  let ?rb = "''||'' @ (b @ ''.'' @ c) @ ''^''"
  from h have b: "CHR ''.'' \<notin> set b" and c: "CHR ''.'' \<notin> set c"
    and ra: "?ra \<in> R" and rb: "?rb \<in> R"
    by simp_all
  have "strict_subdomain (a @ ''.'' @ b @ ''.'' @ c) (b @ ''.'' @ c)"
    unfolding strict_subdomain_iff by blast
  then have "strict_subdomain (domain_of ?ra) (domain_of ?rb)"
    by (simp only: domain_of_envelope)
  with rb have "\<exists>s \<in> R. strict_subdomain (domain_of ?ra) (domain_of s)" ..
  then show "?ra \<notin> prune_subdomain R"
    unfolding prune_subdomain_iff by simp
  have "\<not> strict_subdomain (domain_of ?rb) (domain_of s)" if "s \<in> R" for s
  proof -
    from that assms have "canonical_rule s" by blast
    then have "label_grammar (domain_of s)" by (simp add: canonical_rule_def)
    then have "CHR ''.'' \<in> set (domain_of s)" by (rule label_grammar_has_dot)
    with b c have "\<not> strict_subdomain (b @ ''.'' @ c) (domain_of s)"
      by (rule two_labels_no_parent)
    then show ?thesis unfolding domain_of_envelope .
  qed
  with rb show "?rb \<in> prune_subdomain R"
    unfolding prune_subdomain_iff by blast
qed

theorem prune_keeps_iff_witness:
  "canonical_rule ''||x.b.io^'' \<and> canonical_rule ''||b.io^''
   \<and> ''||b.io^'' \<in> {''||x.b.io^'', ''||b.io^''}
   \<and> (''||b.io^'' \<in> prune_subdomain {''||x.b.io^'', ''||b.io^''} \<longleftrightarrow>
        \<not> (\<exists>anc \<in> set (ancestor_domains (domain_of ''||b.io^'')).
             ''||'' @ anc @ ''^'' \<in> {''||x.b.io^'', ''||b.io^''}))
   \<and> CHR ''.'' \<notin> set ''b'' \<and> CHR ''.'' \<notin> set ''io''
   \<and> ''||'' @ (''x'' @ ''.'' @ ''b'' @ ''.'' @ ''io'') @ ''^'' \<in> {''||x.b.io^'', ''||b.io^''}
   \<and> ''||'' @ (''b'' @ ''.'' @ ''io'') @ ''^'' \<in> {''||x.b.io^'', ''||b.io^''}
   \<and> ''||'' @ (''x'' @ ''.'' @ ''b'' @ ''.'' @ ''io'') @ ''^''
        \<notin> prune_subdomain {''||x.b.io^'', ''||b.io^''}
   \<and> ''||'' @ (''b'' @ ''.'' @ ''io'') @ ''^'' \<in> prune_subdomain {''||x.b.io^'', ''||b.io^''}"
proof -
  let ?R = "{''||x.b.io^'', ''||b.io^''}"
  have c1: "canonical_rule ''||x.b.io^''" and c2: "canonical_rule ''||b.io^''"
    by (simp_all add: canonical_rule_def startswith_def endswith_def domain_of_def
        label_grammar_def is_label_def alnum_hyphen_def letters_def)
  then have h: "\<forall>r \<in> ?R. canonical_rule r" by simp
  note t = prune_keeps_iff [OF h, where r = "''||b.io^''" and a = "''x''" and b = "''b''"
      and c = "''io''"]
  have m: "''||b.io^'' \<in> ?R" by simp
  from t [THEN conjunct1] m
  have k: "''||b.io^'' \<in> prune_subdomain ?R \<longleftrightarrow>
        \<not> (\<exists>anc \<in> set (ancestor_domains (domain_of ''||b.io^'')). ''||'' @ anc @ ''^'' \<in> ?R)"
    by (rule mp)
  have p1: "CHR ''.'' \<notin> set ''b''" and p2: "CHR ''.'' \<notin> set ''io''"
    and p3: "''||'' @ (''x'' @ ''.'' @ ''b'' @ ''.'' @ ''io'') @ ''^'' \<in> ?R"
    and p4: "''||'' @ (''b'' @ ''.'' @ ''io'') @ ''^'' \<in> ?R"
    by simp_all
  from p1 p2 p3 p4 have prem: "CHR ''.'' \<notin> set ''b'' \<and> CHR ''.'' \<notin> set ''io''
      \<and> ''||'' @ (''x'' @ ''.'' @ ''b'' @ ''.'' @ ''io'') @ ''^'' \<in> ?R
      \<and> ''||'' @ (''b'' @ ''.'' @ ''io'') @ ''^'' \<in> ?R"
    by (intro conjI)
  from t [THEN conjunct2] prem
  have concl: "''||'' @ (''x'' @ ''.'' @ ''b'' @ ''.'' @ ''io'') @ ''^'' \<notin> prune_subdomain ?R
      \<and> ''||'' @ (''b'' @ ''.'' @ ''io'') @ ''^'' \<in> prune_subdomain ?R"
    by (rule mp)
  from c1 c2 m k p1 p2 p3 p4 concl [THEN conjunct1] concl [THEN conjunct2] show ?thesis
    by (intro conjI)
qed

subsection \<open>The loader of the list of sources\<close>

lemma set_dropWhile_subset: "set (dropWhile P xs) \<subseteq> set xs"
  by (induction xs) auto

lemma set_strip_subset: "set (strip s) \<subseteq> set s"
proof -
  have "set (strip s) \<subseteq> set (rev (dropWhile isspace s))"
    unfolding strip_def using set_dropWhile_subset [of isspace "rev (dropWhile isspace s)"]
    by simp
  also have "\<dots> \<subseteq> set s"
    using set_dropWhile_subset [of isspace s] by simp
  finally show ?thesis .
qed

lemma source_of_line_no_marker: "CHR ''#'' \<notin> set (source_of_line line)"
proof -
  have "hd (split_on CHR ''#'' line) \<in> set (split_on CHR ''#'' line)"
    using split_on_not_Nil by (rule hd_in_set)
  then have "CHR ''#'' \<notin> set (hd (split_on CHR ''#'' line))"
    using set_split_on by blast
  then show ?thesis
    unfolding source_of_line_def using set_strip_subset by blast
qed

lemma load_sources_no_marker:
  "e \<in> set (load_sources encodings) \<Longrightarrow> CHR ''#'' \<notin> set e"
  by (induction encodings rule: load_sources.induct) (auto simp: source_of_line_no_marker)

text \<open>
  C9. The loader of the list of sources skips blank lines and lines that start with the
  comment marker, and cuts each remaining line at the marker; but a comment line with
  whitespace before its marker is kept, and gives an empty entry.
\<close>

theorem load_sources_indented_comment:
  "load_sources [Some ('' # mirrors'' @ [CHR 0x0A] @ ''https://a.io/list.txt # main'' @ [CHR 0x0A])]
     = ['''', ''https://a.io/list.txt'']"
  by (simp add: file_lines_def keep_line_def source_of_line_def strip_def isspace_def
      whitespace_def startswith_def)

end
